theory Spec2Isabelle
  imports Main "HOL-Library.Word" "HOL-Library.Sublist"
begin

section \<open>Strings of the host language\<close>

text \<open>
  A TypeScript string is a sequence of 16-bit code units. The parser looks at single
  code units only (none of its patterns carries the unicode flag), so a string is
  modelled as a list of 16-bit words.
\<close>

type_synonym jschar = "16 word"
type_synonym jsstring = "jschar list"

abbreviation LF :: jschar where "LF \<equiv> 0x0A"
abbreviation CR :: jschar where "CR \<equiv> 0x0D"
abbreviation LS :: jschar where "LS \<equiv> 0x2028"
abbreviation PS :: jschar where "PS \<equiv> 0x2029"
abbreviation BACKSLASH :: jschar where "BACKSLASH \<equiv> 0x5C"
abbreviation COMMA :: jschar where "COMMA \<equiv> 0x2C"
abbreviation BULLET :: jschar where "BULLET \<equiv> 0x2022"
abbreviation HYPHEN :: jschar where "HYPHEN \<equiv> 0x2D"
abbreviation ASTERISK :: jschar where "ASTERISK \<equiv> 0x2A"
abbreviation LPAREN :: jschar where "LPAREN \<equiv> 0x28"
abbreviation RPAREN :: jschar where "RPAREN \<equiv> 0x29"
abbreviation DOT :: jschar where "DOT \<equiv> 0x2E"
abbreviation LETTER_r :: jschar where "LETTER_r \<equiv> 0x72"
abbreviation LETTER_n :: jschar where "LETTER_n \<equiv> 0x6E"

text \<open>Notation for string literals made of ASCII characters only.\<close>

definition ascii :: "string \<Rightarrow> jsstring" where
  "ascii s = map (\<lambda>c. of_nat (of_char c)) s"

text \<open>
  The code units that \<open>String.prototype.trim\<close> removes and that the pattern \<open>\s\<close>
  matches: the WhiteSpace and LineTerminator productions of ECMAScript.
\<close>

definition isWhiteSpace :: "jschar \<Rightarrow> bool" where
  "isWhiteSpace c \<longleftrightarrow>
     c = 0x09 \<or> c = 0x0A \<or> c = 0x0B \<or> c = 0x0C \<or> c = 0x0D \<or> c = 0x20 \<or> c = 0xA0 \<or>
     c = 0x1680 \<or> (0x2000 \<le> c \<and> c \<le> 0x200A) \<or> c = 0x2028 \<or> c = 0x2029 \<or>
     c = 0x202F \<or> c = 0x205F \<or> c = 0x3000 \<or> c = 0xFEFF"

text \<open>The pattern \<open>\d\<close> without the unicode flag: the ten ASCII digits.\<close>

definition isDigit :: "jschar \<Rightarrow> bool" where
  "isDigit c \<longleftrightarrow> 0x30 \<le> c \<and> c \<le> 0x39"

definition trim :: "jsstring \<Rightarrow> jsstring" where
  "trim s = rev (dropWhile isWhiteSpace (rev (dropWhile isWhiteSpace s)))"

text \<open>
  \<open>s.replace(/ab/g, r)\<close> for two fixed code units \<open>a\<close>, \<open>b\<close> and a replacement of one
  code unit: a scan from the left that replaces each match and goes on after it.
\<close>

fun replacePair :: "jschar \<Rightarrow> jschar \<Rightarrow> jschar \<Rightarrow> jsstring \<Rightarrow> jsstring" where
  "replacePair a b r (x # y # xs) =
     (if x = a \<and> y = b then r # replacePair a b r xs else x # replacePair a b r (y # xs))"
| "replacePair a b r xs = xs"

text \<open>\<open>s.replace(/a/g, r)\<close> for one fixed code unit \<open>a\<close>.\<close>

definition replaceChar :: "jschar \<Rightarrow> jschar \<Rightarrow> jsstring \<Rightarrow> jsstring" where
  "replaceChar a r s = map (\<lambda>x. if x = a then r else x) s"

text \<open>
  \<open>s.split(sep)\<close> where every match of the separator is exactly one code unit (the
  string \<open>"\n"\<close>, or the class \<open>/[\\,]/\<close>): a string with \<open>k\<close> separators gives
  \<open>k + 1\<close> segments, the empty string gives one empty segment. The result is never
  the empty list, so the first case of the inner \<open>case\<close> never arises.
\<close>

fun splitOn :: "(jschar \<Rightarrow> bool) \<Rightarrow> jsstring \<Rightarrow> jsstring list" where
  "splitOn P [] = [[]]"
| "splitOn P (c # cs) =
     (if P c then [] # splitOn P cs
      else (case splitOn P cs of
              [] \<Rightarrow> [[c]]
            | seg # segs \<Rightarrow> (c # seg) # segs))"

section \<open>The item parser\<close>

text \<open>
  The start of the pattern of \<open>stripPrefix\<close>,
  \<open>^(\u2022|\-|\*|\(\d+\)|\d+[.)])\<close>: the rest of the string after the bullet or
  the numbering when the string starts with one, \<open>None\<close> otherwise. The five
  alternatives start with different code units, and a run of digits must be followed by
  a code unit that is no digit, so the greedy run is the only way to match.
\<close>

definition matchPrefix :: "jsstring \<Rightarrow> jsstring option" where
  "matchPrefix s =
     (case s of
        [] \<Rightarrow> None
      | c # cs \<Rightarrow>
          if c = BULLET \<or> c = HYPHEN \<or> c = ASTERISK then Some cs
          else if c = LPAREN then
            (case dropWhile isDigit cs of
               [] \<Rightarrow> None
             | d # ds \<Rightarrow> if takeWhile isDigit cs \<noteq> [] \<and> d = RPAREN then Some ds else None)
          else
            (case dropWhile isDigit s of
               [] \<Rightarrow> None
             | d # ds \<Rightarrow>
                 if takeWhile isDigit s \<noteq> [] \<and> (d = DOT \<or> d = RPAREN) then Some ds else None))"

text \<open>
  \<open>s.replace(/^(...)\s*/g, "").trim()\<close>. The pattern is anchored at the start and has
  no multiline flag, so it matches at most once, at index 0.
\<close>

definition stripPrefix :: "jsstring \<Rightarrow> jsstring" where
  "stripPrefix s =
     trim (case matchPrefix s of
             None \<Rightarrow> s
           | Some rest \<Rightarrow> dropWhile isWhiteSpace rest)"

text \<open>
  The two normalisation statements of \<open>parseItems\<close>: the literal two-character texts
  backslash-r and backslash-n first, then the real line breaks.
\<close>

definition normalizeBreaks :: "jsstring \<Rightarrow> jsstring" where
  "normalizeBreaks t =
     (let t = replacePair BACKSLASH LETTER_n LF (replacePair BACKSLASH LETTER_r LF t)
      in replaceChar PS LF (replaceChar LS LF (replaceChar CR LF (replacePair CR LF LF t))))"

text \<open>The class \<open>/[\\,]/\<close> of the fallback separators.\<close>

definition isSeparator :: "jschar \<Rightarrow> bool" where
  "isSeparator c \<longleftrightarrow> c = BACKSLASH \<or> c = COMMA"

definition parseItems :: "jsstring \<Rightarrow> jsstring list" where
  "parseItems selectionText =
     (if selectionText = [] then []
      else
        let t = trim selectionText in
        if t = [] then []
        else
          let t = normalizeBreaks t in
          if LF \<notin> set t \<and> (BACKSLASH \<in> set t \<or> COMMA \<in> set t) then
            map stripPrefix
              (filter (\<lambda>s. s \<noteq> [])
                 (map trim (splitOn isSeparator t)))
          else
            map stripPrefix
              (filter (\<lambda>s. s \<noteq> []) (map trim (splitOn (\<lambda>c. c = LF) t))))"

section \<open>The bullet-conversion flow\<close>

text \<open>
  The task pane as \<open>bulletsFromSelection\<close> sees it: the \<open>disabled\<close> flag of the three
  controls that \<open>setBusy\<close> switches and the status element with its text and its one
  status class (each \<open>None\<close> when the page has no such element, as the source allows;
  the class \<open>None\<close> before the first status), the operations issued on the document,
  and what was written to the console.
\<close>

datatype statusKind = Info | Success | Error

datatype docOp =
    InsertTextReplace jsstring
  | InsertParagraphAfter jsstring
  | StartNewList
  | ListInsertParagraphEnd jsstring

text \<open>A failure of the host: the \<open>message\<close> of the thrown value, when it has one.\<close>

type_synonym hostError = "string option"

record taskpane =
  insertBtn :: "bool option"
  bulletsBtn :: "bool option"
  titleInput :: "bool option"
  statusEl :: "(string \<times> statusKind option) option"
  issued :: "docOp list"
  console :: "hostError list"

definition setBusy :: "bool \<Rightarrow> taskpane \<Rightarrow> taskpane" where
  "setBusy isBusy w =
     w\<lparr>insertBtn := map_option (\<lambda>_. isBusy) (insertBtn w),
       bulletsBtn := map_option (\<lambda>_. isBusy) (bulletsBtn w),
       titleInput := map_option (\<lambda>_. isBusy) (titleInput w)\<rparr>"

definition setStatus :: "string \<Rightarrow> statusKind \<Rightarrow> taskpane \<Rightarrow> taskpane" where
  "setStatus msg kind w =
     (case statusEl w of
        None \<Rightarrow> w
      | Some el \<Rightarrow> w\<lparr>statusEl := Some (msg, Some kind)\<rparr>)"

definition selectTextFirst :: string where
  "selectTextFirst =
     ''Select text first (one item per line, or apple'' @ [CHR 0x5C] @ ''banana'' @
     [CHR 0x5C] @ ''cherry).''"

text \<open>\<open>err?.message || "Check console."\<close>\<close>

definition errorText :: "hostError \<Rightarrow> string" where
  "errorText err =
     (case err of
        None \<Rightarrow> ''Check console.''
      | Some m \<Rightarrow> if m = [] then ''Check console.'' else m)"

text \<open>
  The function that \<open>bulletsFromSelection\<close> passes to \<open>Word.run\<close>. The host decides
  two things: \<open>selection\<close> is what loading the text of the selection gives (the text, or
  the failure of the first \<open>context.sync()\<close>), and \<open>commit\<close> is the failure of the last
  \<open>context.sync()\<close>, if it fails. The result is the task pane afterwards and the value
  thrown, if any.
\<close>

definition batch ::
  "hostError + jsstring \<Rightarrow> hostError option \<Rightarrow> taskpane \<Rightarrow> taskpane \<times> hostError option" where
  "batch selection commit w =
     (case selection of
        Inl err \<Rightarrow> (w, Some err)
      | Inr text \<Rightarrow>
          (case parseItems text of
             [] \<Rightarrow> (setStatus selectTextFirst Error w, None)
           | first # rest \<Rightarrow>
               (w\<lparr>issued := issued w @
                    [InsertTextReplace [], InsertParagraphAfter first, StartNewList] @
                    map ListInsertParagraphEnd rest\<rparr>,
                commit)))"

definition bulletsFromSelection ::
  "hostError + jsstring \<Rightarrow> hostError option \<Rightarrow> taskpane \<Rightarrow> taskpane" where
  "bulletsFromSelection selection commit w =
     (let w = setBusy True w;
          w = setStatus ''Creating bullets...'' Info w;
          (w, thrown) = batch selection commit w;
          w = (case thrown of
                 None \<Rightarrow> setStatus ''Bullets created.'' Success w
               | Some err \<Rightarrow>
                   setStatus (''Error creating bullets: '' @ errorText err) Error
                     (w\<lparr>console := console w @ [err]\<rparr>))
      in setBusy False w)"

section \<open>Segments and their order, as the specification words them\<close>

text \<open>
  A text written as its segments: a first segment, then each separator with the segment
  that follows it.
\<close>

fun joinSegments :: "jsstring \<Rightarrow> (jschar \<times> jsstring) list \<Rightarrow> jsstring" where
  "joinSegments x [] = x"
| "joinSegments x ((c, y) # ps) = x @ c # joinSegments y ps"

text \<open>
  The strings of a list occur in a text in the order of the list, one after the other
  and without overlap.
\<close>

fun occursInOrder :: "jsstring list \<Rightarrow> jsstring \<Rightarrow> bool" where
  "occursInOrder [] t = True"
| "occursInOrder (x # xs) t = (\<exists>u v. t = u @ x @ v \<and> occursInOrder xs v)"

text \<open>
  The leading sequences that the specification lists for prefix stripping: a bullet
  glyph, a hyphen, an asterisk, a parenthesized integer, or an integer followed by a
  full stop or a closing parenthesis.
\<close>

inductive prefixToken :: "jsstring \<Rightarrow> bool" where
  bullet: "prefixToken [BULLET]"
| hyphen: "prefixToken [HYPHEN]"
| asterisk: "prefixToken [ASTERISK]"
| parenthesized: "ds \<noteq> [] \<Longrightarrow> list_all isDigit ds \<Longrightarrow> prefixToken (LPAREN # ds @ [RPAREN])"
| dotted: "ds \<noteq> [] \<Longrightarrow> list_all isDigit ds \<Longrightarrow> prefixToken (ds @ [DOT])"
| closed: "ds \<noteq> [] \<Longrightarrow> list_all isDigit ds \<Longrightarrow> prefixToken (ds @ [RPAREN])"

section \<open>Trimming\<close>

lemma trim_Nil [simp]: "trim [] = []"
  by (simp add: trim_def)

lemma trim_all_white: "\<forall>c\<in>set s. isWhiteSpace c \<Longrightarrow> trim s = []"
proof -
  assume "\<forall>c\<in>set s. isWhiteSpace c"
  then have e: "dropWhile isWhiteSpace s = []" by (induction s) auto
  show ?thesis unfolding trim_def e by simp
qed

lemma sublist_trim: "sublist (trim s) s"
proof -
  have "sublist (dropWhile isWhiteSpace (rev (dropWhile isWhiteSpace s))) (rev (dropWhile isWhiteSpace s))"
    by (rule sublist_dropWhile)
  then have "sublist (trim s) (dropWhile isWhiteSpace s)"
    by (simp add: trim_def sublist_rev_left)
  moreover have "sublist (dropWhile isWhiteSpace s) s" by (rule sublist_dropWhile)
  ultimately show ?thesis by (rule sublist_order.order.trans)
qed

lemma trim_ends:
  assumes "trim s \<noteq> []"
  shows "\<not> isWhiteSpace (hd (trim s))" and "\<not> isWhiteSpace (last (trim s))"
proof -
  let ?m = "dropWhile isWhiteSpace s"
  let ?d = "dropWhile isWhiteSpace (rev ?m)"
  from assms have d: "?d \<noteq> []" by (simp add: trim_def)
  have m: "?m \<noteq> []"
  proof
    assume e: "?m = []"
    have "?d = []" unfolding e by simp
    with d show False by contradiction
  qed
  have "last (trim s) = hd ?d" using d by (simp add: trim_def last_rev)
  then show "\<not> isWhiteSpace (last (trim s))" using d hd_dropWhile [of isWhiteSpace "rev ?m"] by simp
  have "suffix ?d (rev ?m)" by (rule suffix_dropWhile)
  then obtain p where "rev ?m = p @ ?d" by (auto simp: suffix_def)
  then have "last (rev ?m) = last ?d" using d by (metis last_appendR)
  then have "hd (trim s) = hd ?m" using d m by (simp add: trim_def hd_rev last_rev)
  then show "\<not> isWhiteSpace (hd (trim s))" using m hd_dropWhile [of isWhiteSpace s] by simp
qed

lemma trim_fixed:
  assumes "s = [] \<or> (\<not> isWhiteSpace (hd s) \<and> \<not> isWhiteSpace (last s))"
  shows "trim s = s"
proof (cases "s = []")
  case True then show ?thesis by simp
next
  case False
  with assms have h: "\<not> isWhiteSpace (hd s)" and l: "\<not> isWhiteSpace (last s)" by auto
  from False h have 1: "dropWhile isWhiteSpace s = s" by (cases s) auto
  from False l have "\<not> isWhiteSpace (hd (rev s))" by (simp add: hd_rev)
  with False have 2: "dropWhile isWhiteSpace (rev s) = rev s" by (cases "rev s") auto
  show ?thesis by (simp add: trim_def 1 2)
qed

lemma trim_trim [simp]: "trim (trim s) = trim s"
  using trim_ends [of s] by (intro trim_fixed) auto

lemma trim_dropWhile [simp]: "trim (dropWhile isWhiteSpace s) = trim s"
  by (simp add: trim_def)

lemma trim_white_append: "\<forall>c\<in>set ws. isWhiteSpace c \<Longrightarrow> trim (ws @ s) = trim s"
  by (simp add: trim_def dropWhile_append)

lemma stripPrefix_trimmed: "trim (stripPrefix s) = stripPrefix s"
  by (simp add: stripPrefix_def)

lemma parseItems_stripPrefix: "x \<in> set (parseItems s) \<Longrightarrow> \<exists>y. x = stripPrefix y"
  by (auto simp: parseItems_def Let_def split: if_splits)

section \<open>Segments of the normalised text\<close>

lemma matchPrefix_suffix: "matchPrefix s = Some rest \<Longrightarrow> suffix rest s"
proof -
  assume m: "matchPrefix s = Some rest"
  have drop: "suffix ds xs" if "dropWhile isDigit xs = d # ds" for d ds xs
  proof -
    have "suffix (d # ds) xs" using suffix_dropWhile [of isDigit xs] that by simp
    then show ?thesis by (rule suffix_ConsD)
  qed
  from m show ?thesis
    by (auto simp: matchPrefix_def suffix_ConsI split: list.splits if_splits dest!: drop
        intro: suffix_ConsI)
qed

lemma sublist_stripPrefix: "sublist (stripPrefix s) s"
proof (cases "matchPrefix s")
  case None
  then show ?thesis by (simp add: stripPrefix_def sublist_trim)
next
  case (Some rest)
  have "sublist (trim (dropWhile isWhiteSpace rest)) (dropWhile isWhiteSpace rest)"
    by (rule sublist_trim)
  also have "sublist (dropWhile isWhiteSpace rest) rest" by (rule sublist_dropWhile)
  also have "sublist rest s" using matchPrefix_suffix [OF Some] by (rule suffix_imp_sublist)
  finally show ?thesis using Some by (simp add: stripPrefix_def)
qed

lemma sublist_item: "sublist (stripPrefix (trim y)) y"
  using sublist_stripPrefix [of "trim y"] sublist_trim [of y]
  by (rule sublist_order.order.trans)

lemma joinSegments_Cons: "joinSegments (c # x) ps = c # joinSegments x ps"
  by (cases ps) auto

lemma splitOn_structure:
  "\<exists>x ps. splitOn P t = x # map snd ps \<and> t = joinSegments x ps \<and>
          (\<forall>p\<in>set ps. P (fst p)) \<and> (\<forall>y\<in>set (x # map snd ps). \<forall>c\<in>set y. \<not> P c)"
proof (induction t)
  case Nil
  have "splitOn P [] = [] # map snd [] \<and> [] = joinSegments [] [] \<and>
        (\<forall>p\<in>set ([] :: (jschar \<times> jsstring) list). P (fst p)) \<and>
        (\<forall>y\<in>set ([] # map snd ([] :: (jschar \<times> jsstring) list)). \<forall>c\<in>set y. \<not> P c)"
    by simp
  then show ?case by blast
next
  case (Cons c cs)
  then obtain x ps where s: "splitOn P cs = x # map snd ps" and j: "cs = joinSegments x ps"
    and p: "\<forall>p\<in>set ps. P (fst p)" and n: "\<forall>y\<in>set (x # map snd ps). \<forall>c\<in>set y. \<not> P c"
    by blast
  show ?case
  proof (cases "P c")
    case True
    have "splitOn P (c # cs) = [] # map snd ((c, x) # ps) \<and>
          c # cs = joinSegments [] ((c, x) # ps) \<and>
          (\<forall>p\<in>set ((c, x) # ps). P (fst p)) \<and>
          (\<forall>y\<in>set ([] # map snd ((c, x) # ps)). \<forall>c\<in>set y. \<not> P c)"
      using True s j p n by simp
    then show ?thesis by blast
  next
    case False
    have "splitOn P (c # cs) = (c # x) # map snd ps \<and>
          c # cs = joinSegments (c # x) ps \<and>
          (\<forall>p\<in>set ps. P (fst p)) \<and>
          (\<forall>y\<in>set ((c # x) # map snd ps). \<forall>c\<in>set y. \<not> P c)"
      using False s j p n by (simp add: joinSegments_Cons)
    then show ?thesis by blast
  qed
qed

lemma sublist_joinSegments:
  "y \<in> set (x # map snd ps) \<Longrightarrow> sublist y (joinSegments x ps)"
proof (induction x ps rule: joinSegments.induct)
  case (1 x)
  then show ?case by simp
next
  case (2 x c z ps)
  show ?case
  proof (cases "y = x")
    case True
    then show ?thesis by simp
  next
    case False
    with 2 have "sublist y (joinSegments z ps)" by auto
    then obtain a b where "joinSegments z ps = a @ y @ b" by (auto simp: sublist_def)
    then have "joinSegments x ((c, z) # ps) = (x @ c # a) @ y @ b" by simp
    then show ?thesis unfolding sublist_def by blast
  qed
qed

lemma splitOn_segment:
  assumes "y \<in> set (splitOn P t)"
  shows "sublist y t" and "\<forall>c\<in>set y. \<not> P c"
proof -
  obtain x ps where s: "splitOn P t = x # map snd ps" and j: "t = joinSegments x ps"
    and n: "\<forall>y\<in>set (x # map snd ps). \<forall>c\<in>set y. \<not> P c"
    using splitOn_structure [of P t] by blast
  from assms s have y: "y \<in> set (x # map snd ps)" by simp
  then show "sublist y t" unfolding j by (rule sublist_joinSegments)
  from y n show "\<forall>c\<in>set y. \<not> P c" by blast
qed

lemma set_replaceChar: "set (replaceChar a r s) \<subseteq> insert r (set s - {a})"
  by (auto simp: replaceChar_def)

lemma normalizeBreaks_breaks:
  "CR \<notin> set (normalizeBreaks t)" "LS \<notin> set (normalizeBreaks t)" "PS \<notin> set (normalizeBreaks t)"
proof -
  define t1 where "t1 = replacePair CR LF LF
    (replacePair BACKSLASH LETTER_n LF (replacePair BACKSLASH LETTER_r LF t))"
  define t2 where "t2 = replaceChar CR LF t1"
  define t3 where "t3 = replaceChar LS LF t2"
  have n: "normalizeBreaks t = replaceChar PS LF t3"
    by (simp add: normalizeBreaks_def t1_def t2_def t3_def)
  have 2: "CR \<notin> set t2" using set_replaceChar [of CR LF t1] by (auto simp: t2_def)
  have 3: "CR \<notin> set t3 \<and> LS \<notin> set t3" using 2 set_replaceChar [of LS LF t2] by (auto simp: t3_def)
  have 4: "CR \<notin> set (normalizeBreaks t) \<and> LS \<notin> set (normalizeBreaks t) \<and> PS \<notin> set (normalizeBreaks t)"
    using 3 set_replaceChar [of PS LF t3] unfolding n by auto
  then show "CR \<notin> set (normalizeBreaks t)" "LS \<notin> set (normalizeBreaks t)" "PS \<notin> set (normalizeBreaks t)"
    by simp_all
qed

text \<open>Every item comes from one segment of the normalised text.\<close>

lemma parseItems_item:
  assumes "x \<in> set (parseItems s)"
  obtains y where "sublist x y" and "sublist y (normalizeBreaks (trim s))" and "LF \<notin> set y"
proof -
  let ?t = "normalizeBreaks (trim s)"
  show thesis
  proof (cases "LF \<notin> set ?t \<and> (BACKSLASH \<in> set ?t \<or> COMMA \<in> set ?t)")
    case True
    with assms obtain y where y: "y \<in> set (splitOn isSeparator ?t)" and x: "x = stripPrefix (trim y)"
      by (auto simp: parseItems_def Let_def split: if_splits)
    have "sublist y ?t" using y by (rule splitOn_segment)
    moreover from this True have "LF \<notin> set y" using set_mono_sublist by blast
    moreover have "sublist x y" unfolding x by (rule sublist_item)
    ultimately show thesis using that by blast
  next
    case False
    with assms obtain y where y: "y \<in> set (splitOn (\<lambda>c. c = LF) ?t)" and x: "x = stripPrefix (trim y)"
      by (auto simp: parseItems_def Let_def split: if_splits)
    have "sublist y ?t" using y by (rule splitOn_segment)
    moreover have "LF \<notin> set y" using splitOn_segment(2) [OF y] by blast
    moreover have "sublist x y" unfolding x by (rule sublist_item)
    ultimately show thesis using that by blast
  qed
qed

lemma parseItems_no_breaks:
  assumes "x \<in> set (parseItems s)"
  shows "LF \<notin> set x" "CR \<notin> set x" "LS \<notin> set x" "PS \<notin> set x"
proof -
  from assms obtain y where xy: "sublist x y" and yt: "sublist y (normalizeBreaks (trim s))"
    and lf: "LF \<notin> set y" by (rule parseItems_item)
  have 1: "set x \<subseteq> set y" using xy by (rule set_mono_sublist)
  have 2: "set y \<subseteq> set (normalizeBreaks (trim s))" using yt by (rule set_mono_sublist)
  show "LF \<notin> set x" using 1 lf by blast
  show "CR \<notin> set x" using 1 2 normalizeBreaks_breaks(1) [of "trim s"] by blast
  show "LS \<notin> set x" using 1 2 normalizeBreaks_breaks(2) [of "trim s"] by blast
  show "PS \<notin> set x" using 1 2 normalizeBreaks_breaks(3) [of "trim s"] by blast
qed

section \<open>Blank input\<close>

text \<open>
  Claim C3. \<open>parseItems\<close> never raises: the source has no throwing statement and every
  string operation it calls is defined on all strings, so the model is a total function
  with no error value. On the empty string, and on every string that consists of
  whitespace only, it returns the empty list.
\<close>

theorem parseItems_blank:
  "parseItems [] = [] \<and> ((\<forall>c\<in>set s. isWhiteSpace c) \<longrightarrow> parseItems s = [])"
  by (simp add: parseItems_def trim_all_white)

theorem parseItems_blank_witness:
  "isWhiteSpace 0x20 \<and> isWhiteSpace 0x09 \<and> isWhiteSpace LF \<and> isWhiteSpace 0xA0 \<and>
   parseItems [0x20, 0x09, LF, 0xA0] = []"
  using parseItems_blank [of "[0x20, 0x09, LF, 0xA0]"]
  by (simp add: isWhiteSpace_def)

section \<open>Items are trimmed\<close>

text \<open>
  Claim C7. Every item that \<open>parseItems\<close> returns is already trimmed: trimming it
  again gives the same item.
\<close>

theorem parseItems_trimmed: "\<forall>x\<in>set (parseItems s). trim x = x"
proof
  fix x
  assume "x \<in> set (parseItems s)"
  then obtain y where "x = stripPrefix y" using parseItems_stripPrefix by blast
  then show "trim x = x" by (simp add: stripPrefix_trimmed)
qed

theorem parseItems_trimmed_witness:
  "ascii ''b c'' \<in> set (parseItems (ascii ''  a ,  - b c  , d'')) \<and>
   trim (ascii ''b c'') = ascii ''b c''"
proof -
  have m: "ascii ''b c'' \<in> set (parseItems (ascii ''  a ,  - b c  , d''))"
    by code_simp
  with parseItems_trimmed [of "ascii ''  a ,  - b c  , d''"] show ?thesis by blast
qed

section \<open>Items hold no line break\<close>

text \<open>
  Claim C10. No item that \<open>parseItems\<close> returns contains a linefeed, a carriage
  return, a line separator (U+2028) or a paragraph separator (U+2029), whichever of the
  two ways of splitting was taken.
\<close>

theorem parseItems_line_break_free:
  "\<forall>x\<in>set (parseItems s). LF \<notin> set x \<and> CR \<notin> set x \<and> LS \<notin> set x \<and> PS \<notin> set x"
  using parseItems_no_breaks by blast

theorem parseItems_line_break_free_witness:
  "ascii ''b'' \<in> set (parseItems (ascii ''a'' @ [CR, LF] @ ascii ''b'' @ [LS] @ ascii ''c'' @ [PS] @ ascii ''d'')) \<and>
   LF \<notin> set (ascii ''b'') \<and> CR \<notin> set (ascii ''b'') \<and>
   LS \<notin> set (ascii ''b'') \<and> PS \<notin> set (ascii ''b'')"
proof -
  have m: "ascii ''b'' \<in> set (parseItems (ascii ''a'' @ [CR, LF] @ ascii ''b'' @ [LS] @ ascii ''c'' @ [PS] @ ascii ''d''))"
    by code_simp
  with parseItems_line_break_free
    [of "ascii ''a'' @ [CR, LF] @ ascii ''b'' @ [LS] @ ascii ''c'' @ [PS] @ ascii ''d''"]
  show ?thesis by blast
qed

section \<open>Literal escape sequences\<close>

lemma replacePair_head: "x \<noteq> a \<Longrightarrow> replacePair a b r (x # v) = x # replacePair a b r v"
  by (cases v) auto

lemma replacePair_sep:
  "x \<noteq> a \<Longrightarrow> x \<noteq> b \<Longrightarrow>
   replacePair a b r (u @ x # v) = replacePair a b r u @ x # replacePair a b r v"
  by (induction a b r u rule: replacePair.induct) (auto simp: replacePair_head)

lemma replacePair_snoc: "x \<noteq> b \<Longrightarrow> replacePair a b r (u @ [x]) = replacePair a b r u @ [x]"
  by (induction a b r u rule: replacePair.induct) auto

lemma replacePair_match:
  "a \<noteq> b \<Longrightarrow>
   replacePair a b r (u @ a # b # v) = replacePair a b r u @ r # replacePair a b r v"
  by (induction a b r u rule: replacePair.induct) auto

lemma escapes_n:
  "replacePair BACKSLASH LETTER_n LF (replacePair BACKSLASH LETTER_r LF (u @ [BACKSLASH, LETTER_n] @ v)) =
   replacePair BACKSLASH LETTER_n LF (replacePair BACKSLASH LETTER_r LF (u @ [LF] @ v))"
proof -
  let ?f = "replacePair BACKSLASH LETTER_r LF" and ?g = "replacePair BACKSLASH LETTER_n LF"
  have "?f (u @ [BACKSLASH, LETTER_n] @ v) = ?f ((u @ [BACKSLASH]) @ LETTER_n # v)" by simp
  also have "\<dots> = ?f (u @ [BACKSLASH]) @ LETTER_n # ?f v" by (rule replacePair_sep) simp_all
  also have "?f (u @ [BACKSLASH]) = ?f u @ [BACKSLASH]" by (rule replacePair_snoc) simp
  finally have 1: "?f (u @ [BACKSLASH, LETTER_n] @ v) = ?f u @ BACKSLASH # LETTER_n # ?f v" by simp
  have 2: "?g (?f u @ BACKSLASH # LETTER_n # ?f v) = ?g (?f u) @ LF # ?g (?f v)"
    by (rule replacePair_match) simp
  have 3: "?f (u @ [LF] @ v) = ?f u @ LF # ?f v" by (simp add: replacePair_sep)
  have 4: "?g (?f u @ LF # ?f v) = ?g (?f u) @ LF # ?g (?f v)" by (simp add: replacePair_sep)
  show ?thesis by (simp only: 1 2 3 4)
qed

lemma escapes_r:
  "replacePair BACKSLASH LETTER_n LF (replacePair BACKSLASH LETTER_r LF (u @ [BACKSLASH, LETTER_r] @ v)) =
   replacePair BACKSLASH LETTER_n LF (replacePair BACKSLASH LETTER_r LF (u @ [LF] @ v))"
proof -
  let ?f = "replacePair BACKSLASH LETTER_r LF" and ?g = "replacePair BACKSLASH LETTER_n LF"
  have 1: "?f (u @ [BACKSLASH, LETTER_r] @ v) = ?f u @ LF # ?f v"
    by (simp add: replacePair_match)
  have 3: "?f (u @ [LF] @ v) = ?f u @ LF # ?f v" by (simp add: replacePair_sep)
  show ?thesis by (simp only: 1 3)
qed

lemma normalizeBreaks_escape:
  "normalizeBreaks (u @ [BACKSLASH, LETTER_n] @ v) = normalizeBreaks (u @ [LF] @ v)"
  "normalizeBreaks (u @ [BACKSLASH, LETTER_r] @ v) = normalizeBreaks (u @ [LF] @ v)"
  unfolding normalizeBreaks_def Let_def by (simp_all only: escapes_n escapes_r)

lemma trim_between:
  assumes "\<exists>c\<in>set u. \<not> isWhiteSpace c" and "\<exists>c\<in>set v. \<not> isWhiteSpace c"
  shows "trim (u @ m @ v) = dropWhile isWhiteSpace u @ m @ rev (dropWhile isWhiteSpace (rev v))"
proof -
  from assms(1) have 1: "dropWhile isWhiteSpace (u @ m @ v) = dropWhile isWhiteSpace u @ m @ v"
    by (auto simp: dropWhile_append1)
  from assms(2) have "\<exists>c\<in>set (rev v). \<not> isWhiteSpace c" by simp
  then have 2: "dropWhile isWhiteSpace (rev v @ rev m @ rev (dropWhile isWhiteSpace u)) =
      dropWhile isWhiteSpace (rev v) @ rev m @ rev (dropWhile isWhiteSpace u)"
    by (auto simp: dropWhile_append1)
  show ?thesis unfolding trim_def 1 by (simp add: 2)
qed

lemma parseItems_cong:
  assumes "s \<noteq> []" and "s' \<noteq> []" and "trim s \<noteq> []" and "trim s' \<noteq> []"
    and "normalizeBreaks (trim s) = normalizeBreaks (trim s')"
  shows "parseItems s = parseItems s'"
  using assms by (simp add: parseItems_def Let_def)

lemma parseItems_escape_between:
  assumes "\<exists>c\<in>set u. \<not> isWhiteSpace c" and "\<exists>c\<in>set v. \<not> isWhiteSpace c"
  shows "parseItems (u @ [BACKSLASH, LETTER_n] @ v) = parseItems (u @ [LF] @ v)"
    and "parseItems (u @ [BACKSLASH, LETTER_r] @ v) = parseItems (u @ [LF] @ v)"
proof -
  let ?u = "dropWhile isWhiteSpace u" and ?v = "rev (dropWhile isWhiteSpace (rev v))"
  have tn: "trim (u @ [BACKSLASH, LETTER_n] @ v) = ?u @ [BACKSLASH, LETTER_n] @ ?v"
    by (rule trim_between [OF assms])
  have tr: "trim (u @ [BACKSLASH, LETTER_r] @ v) = ?u @ [BACKSLASH, LETTER_r] @ ?v"
    by (rule trim_between [OF assms])
  have tl: "trim (u @ [LF] @ v) = ?u @ [LF] @ ?v"
    by (rule trim_between [OF assms])
  show "parseItems (u @ [BACKSLASH, LETTER_n] @ v) = parseItems (u @ [LF] @ v)"
  proof (rule parseItems_cong)
    show "trim (u @ [BACKSLASH, LETTER_n] @ v) \<noteq> []" unfolding tn by simp
    show "trim (u @ [LF] @ v) \<noteq> []" unfolding tl by simp
    show "normalizeBreaks (trim (u @ [BACKSLASH, LETTER_n] @ v)) =
          normalizeBreaks (trim (u @ [LF] @ v))"
      unfolding tn tl by (rule normalizeBreaks_escape)
  qed simp_all
  show "parseItems (u @ [BACKSLASH, LETTER_r] @ v) = parseItems (u @ [LF] @ v)"
  proof (rule parseItems_cong)
    show "trim (u @ [BACKSLASH, LETTER_r] @ v) \<noteq> []" unfolding tr by simp
    show "trim (u @ [LF] @ v) \<noteq> []" unfolding tl by simp
    show "normalizeBreaks (trim (u @ [BACKSLASH, LETTER_r] @ v)) =
          normalizeBreaks (trim (u @ [LF] @ v))"
      unfolding tr tl by (rule normalizeBreaks_escape)
  qed simp_all
qed

text \<open>
  Claim C4. The two-character texts backslash-n and backslash-r become the line-break
  marker before the separator is chosen: a text with such a sequence has the same
  normal form as the text with a linefeed in its place. When the sequence stands between
  words (some code unit that is no whitespace before it and after it), \<open>parseItems\<close>
  returns what it returns for the text with a real linefeed there; the text \<open>a\nb\<close>
  of four code units gives the items \<open>a\<close> and \<open>b\<close>.
\<close>

theorem literal_escapes_are_line_breaks:
  "normalizeBreaks (u @ [BACKSLASH, LETTER_n] @ v) = normalizeBreaks (u @ [LF] @ v) \<and>
   normalizeBreaks (u @ [BACKSLASH, LETTER_r] @ v) = normalizeBreaks (u @ [LF] @ v) \<and>
   (list_ex (\<lambda>c. \<not> isWhiteSpace c) u \<and> list_ex (\<lambda>c. \<not> isWhiteSpace c) v \<longrightarrow>
      parseItems (u @ [BACKSLASH, LETTER_n] @ v) = parseItems (u @ [LF] @ v) \<and>
      parseItems (u @ [BACKSLASH, LETTER_r] @ v) = parseItems (u @ [LF] @ v)) \<and>
   parseItems (ascii ''a'' @ [BACKSLASH, LETTER_n] @ ascii ''b'') = [ascii ''a'', ascii ''b'']"
proof -
  have e: "parseItems (ascii ''a'' @ [BACKSLASH, LETTER_n] @ ascii ''b'') = [ascii ''a'', ascii ''b'']"
    by code_simp
  show ?thesis
    using normalizeBreaks_escape [of u v] parseItems_escape_between [of u v] e
    by (simp add: list_ex_iff)
qed

theorem literal_escapes_are_line_breaks_witness:
  "list_ex (\<lambda>c. \<not> isWhiteSpace c) (ascii ''x, y '') \<and>
   list_ex (\<lambda>c. \<not> isWhiteSpace c) (ascii '' 2. z'') \<and>
   parseItems (ascii ''x, y '' @ [BACKSLASH, LETTER_r] @ ascii '' 2. z'') = [ascii ''x, y'', ascii ''z''] \<and>
   parseItems (ascii ''x, y '' @ [LF] @ ascii '' 2. z'') = [ascii ''x, y'', ascii ''z'']"
proof -
  have 1: "list_ex (\<lambda>c. \<not> isWhiteSpace c) (ascii ''x, y '')" by code_simp
  have 2: "list_ex (\<lambda>c. \<not> isWhiteSpace c) (ascii '' 2. z'')" by code_simp
  have 3: "parseItems (ascii ''x, y '' @ [LF] @ ascii '' 2. z'') = [ascii ''x, y'', ascii ''z'']"
    by code_simp
  from literal_escapes_are_line_breaks [of "ascii ''x, y ''" "ascii '' 2. z''"] 1 2 3
  show ?thesis by simp
qed

section \<open>Prefix stripping\<close>

lemma digit_no_mark:
  "isDigit c \<Longrightarrow>
   c \<noteq> BULLET \<and> c \<noteq> HYPHEN \<and> c \<noteq> ASTERISK \<and> c \<noteq> LPAREN \<and> c \<noteq> DOT \<and> c \<noteq> RPAREN"
  by (auto simp: isDigit_def)

lemma digits_run:
  assumes "list_all isDigit ds" and "\<not> isDigit d"
  shows "takeWhile isDigit (ds @ d # zs) = ds" and "dropWhile isDigit (ds @ d # zs) = d # zs"
  using assms by (simp_all add: list_all_iff takeWhile_append2 dropWhile_append2)

lemma matchPrefix_digits:
  assumes "ds \<noteq> []" and "list_all isDigit ds" and "d = DOT \<or> d = RPAREN"
  shows "matchPrefix (ds @ d # zs) = Some zs"
proof -
  from assms(1) obtain c cs where ds: "ds = c # cs" by (cases ds) auto
  with assms(2) have c: "isDigit c" by simp
  from assms(3) have d: "\<not> isDigit d" by (auto simp: isDigit_def)
  from digits_run [OF assms(2) d, of zs]
  have r1: "dropWhile isDigit (c # cs @ d # zs) = d # zs"
    and r2: "takeWhile isDigit (c # cs @ d # zs) = c # cs"
    by (simp_all add: ds)
  have "matchPrefix (c # cs @ d # zs) = Some zs"
    unfolding matchPrefix_def using digit_no_mark [OF c] r1 r2 assms(3)
    by (simp del: dropWhile.simps takeWhile.simps)
  then show ?thesis by (simp add: ds)
qed

lemma matchPrefix_token: "prefixToken tok \<Longrightarrow> matchPrefix (tok @ zs) = Some zs"
proof (induction rule: prefixToken.induct)
  case (parenthesized ds)
  have "\<not> isDigit RPAREN" by (simp add: isDigit_def)
  from digits_run [OF parenthesized(2) this, of zs] parenthesized(1)
  show ?case by (simp add: matchPrefix_def)
next
  case (dotted ds)
  then show ?case using matchPrefix_digits [of ds DOT zs] by simp
next
  case (closed ds)
  then show ?case using matchPrefix_digits [of ds RPAREN zs] by simp
qed (simp_all add: matchPrefix_def)

lemma digits_split:
  assumes "dropWhile isDigit s = d # rest"
  shows "s = takeWhile isDigit s @ d # rest" and "list_all isDigit (takeWhile isDigit s)"
proof -
  have "s = takeWhile isDigit s @ dropWhile isDigit s" by simp
  with assms show "s = takeWhile isDigit s @ d # rest" by simp
  show "list_all isDigit (takeWhile isDigit s)"
    by (auto simp: list_all_iff dest: set_takeWhileD)
qed

lemma matchPrefix_Some:
  assumes "matchPrefix s = Some rest"
  shows "\<exists>tok. prefixToken tok \<and> s = tok @ rest"
proof (cases s)
  case Nil
  with assms show ?thesis by (simp add: matchPrefix_def)
next
  case (Cons c cs)
  consider (mark) "c = BULLET \<or> c = HYPHEN \<or> c = ASTERISK"
    | (paren) "c = LPAREN"
    | (other) "\<not> (c = BULLET \<or> c = HYPHEN \<or> c = ASTERISK)" "c \<noteq> LPAREN"
    by blast
  then show ?thesis
  proof cases
    case mark
    with assms Cons have "rest = cs" by (auto simp: matchPrefix_def)
    moreover from mark have "prefixToken [c]" by (auto intro: prefixToken.intros)
    ultimately have "prefixToken [c] \<and> s = [c] @ rest" using Cons by simp
    then show ?thesis by blast
  next
    case paren
    with assms Cons obtain d where d: "dropWhile isDigit cs = d # rest"
      and ne: "takeWhile isDigit cs \<noteq> []" and r: "d = RPAREN"
      by (auto simp: matchPrefix_def split: list.splits if_splits)
    note sp = digits_split [OF d]
    have "prefixToken (LPAREN # takeWhile isDigit cs @ [RPAREN])"
      using ne sp(2) by (rule prefixToken.parenthesized)
    moreover have "s = (LPAREN # takeWhile isDigit cs @ [RPAREN]) @ rest"
      using Cons paren sp(1) r by simp
    ultimately show ?thesis by blast
  next
    case other
    with assms Cons obtain d where d: "dropWhile isDigit s = d # rest"
      and ne: "takeWhile isDigit s \<noteq> []" and r: "d = DOT \<or> d = RPAREN"
      by (auto simp: matchPrefix_def split: list.splits if_splits)
    note sp = digits_split [OF d]
    from r have "prefixToken (takeWhile isDigit s @ [d])"
      using ne sp(2) by (auto intro: prefixToken.dotted prefixToken.closed)
    moreover have "s = (takeWhile isDigit s @ [d]) @ rest" using sp(1) by simp
    ultimately show ?thesis by blast
  qed
qed

lemma stripPrefix_token:
  assumes "prefixToken tok" and "list_all isWhiteSpace ws"
  shows "stripPrefix (tok @ ws @ rest) = trim rest"
proof -
  have "stripPrefix (tok @ ws @ rest) = trim (ws @ rest)"
    using matchPrefix_token [OF assms(1), of "ws @ rest"] by (simp add: stripPrefix_def)
  also have "\<dots> = trim rest" using assms(2) by (simp add: trim_white_append list_all_iff)
  finally show ?thesis .
qed

lemma stripPrefix_no_token:
  assumes "\<nexists>tok rest. prefixToken tok \<and> s = tok @ rest"
  shows "stripPrefix s = trim s"
proof (cases "matchPrefix s")
  case None
  then show ?thesis by (simp add: stripPrefix_def)
next
  case (Some rest)
  from matchPrefix_Some [OF this] assms show ?thesis by blast
qed

text \<open>
  Claim C5. \<open>stripPrefix\<close> removes one leading prefix and the whitespace after it,
  and nothing else: for a string that starts with a bullet glyph, a hyphen, an asterisk,
  a parenthesized integer, or an integer followed by a full stop or a closing
  parenthesis, the result is the rest of the string, trimmed, whatever the rest is (a
  second prefix in it stays). A string that starts with none of these is only trimmed,
  so a prefix further inside stays as well. For the three lines \<open>1) First\<close>,
  \<open>2) Second\<close>, \<open>- Third\<close> the parser returns \<open>First\<close>, \<open>Second\<close>, \<open>Third\<close>.
\<close>

theorem stripPrefix_one_leading_prefix:
  "(prefixToken tok \<and> list_all isWhiteSpace ws \<longrightarrow> stripPrefix (tok @ ws @ rest) = trim rest) \<and>
   ((\<nexists>tok rest. prefixToken tok \<and> s = tok @ rest) \<longrightarrow> stripPrefix s = trim s) \<and>
   stripPrefix (ascii ''- - a'') = ascii ''- a'' \<and>
   stripPrefix (ascii ''1. 2) b'') = ascii ''2) b'' \<and>
   stripPrefix (ascii ''a - b'') = ascii ''a - b'' \<and>
   parseItems (ascii ''1) First\<newline>2) Second\<newline>- Third'') =
     [ascii ''First'', ascii ''Second'', ascii ''Third'']"
proof -
  have 1: "stripPrefix (ascii ''- - a'') = ascii ''- a''" by code_simp
  have 2: "stripPrefix (ascii ''1. 2) b'') = ascii ''2) b''" by code_simp
  have 3: "stripPrefix (ascii ''a - b'') = ascii ''a - b''" by code_simp
  have 4: "parseItems (ascii ''1) First\<newline>2) Second\<newline>- Third'') =
     [ascii ''First'', ascii ''Second'', ascii ''Third'']" by code_simp
  show ?thesis
    using stripPrefix_token [of tok ws rest] stripPrefix_no_token [of s] 1 2 3 4 by blast
qed

theorem stripPrefix_one_leading_prefix_witness:
  "prefixToken (ascii ''(12)'') \<and> list_all isWhiteSpace (ascii ''  '') \<and>
   stripPrefix (ascii ''(12)'' @ ascii ''  '' @ ascii ''* x'') = ascii ''* x'' \<and>
   (\<nexists>tok rest. prefixToken tok \<and> ascii ''x 1. y'' = tok @ rest) \<and>
   stripPrefix (ascii ''x 1. y'') = ascii ''x 1. y''"
proof -
  have "prefixToken (LPAREN # [0x31, 0x32] @ [RPAREN])"
    by (rule prefixToken.parenthesized) (simp_all add: isDigit_def)
  then have 1: "prefixToken (ascii ''(12)'')" by (simp add: ascii_def)
  have 2: "list_all isWhiteSpace (ascii ''  '')" by code_simp
  have 3: "\<nexists>tok rest. prefixToken tok \<and> ascii ''x 1. y'' = tok @ rest"
  proof
    assume "\<exists>tok rest. prefixToken tok \<and> ascii ''x 1. y'' = tok @ rest"
    then obtain tok rest where t: "prefixToken tok" and e: "0x78 # ascii '' 1. y'' = tok @ rest"
      by (auto simp: ascii_def)
    from t e show False
    proof cases
      case (parenthesized ds) with e show False by simp
    next
      case (dotted ds)
      with e have "hd ds = 0x78" by (cases ds) auto
      with dotted show False by (cases ds) (auto simp: isDigit_def)
    next
      case (closed ds)
      with e have "hd ds = 0x78" by (cases ds) auto
      with closed show False by (cases ds) (auto simp: isDigit_def)
    qed simp_all
  qed
  have 4: "trim (ascii ''* x'') = ascii ''* x''" by code_simp
  have 5: "trim (ascii ''x 1. y'') = ascii ''x 1. y''" by code_simp
  from stripPrefix_one_leading_prefix [of "ascii ''(12)''" "ascii ''  ''" "ascii ''* x''" "ascii ''x 1. y''"]
    1 2 3 4 5
  show ?thesis by simp
qed

section \<open>The separator decision\<close>

lemma segments_of_split:
  "\<exists>x ps. t = joinSegments x ps \<and> list_all P (map fst ps) \<and>
          list_all (\<lambda>y. \<not> list_ex P y) (x # map snd ps) \<and>
          splitOn P t = x # map snd ps"
proof -
  obtain x ps where "splitOn P t = x # map snd ps" "t = joinSegments x ps"
    "\<forall>p\<in>set ps. P (fst p)" "\<forall>y\<in>set (x # map snd ps). \<forall>c\<in>set y. \<not> P c"
    using splitOn_structure [of P t] by blast
  then have "t = joinSegments x ps \<and> list_all P (map fst ps) \<and>
          list_all (\<lambda>y. \<not> list_ex P y) (x # map snd ps) \<and>
          splitOn P t = x # map snd ps"
    by (simp add: list_all_iff list_ex_iff)
  then show ?thesis by blast
qed

lemma normalizeBreaks_Nil [simp]: "normalizeBreaks [] = []"
  by (simp add: normalizeBreaks_def replaceChar_def)

lemma parseItems_nonblank:
  assumes "normalizeBreaks (trim s) \<noteq> []"
  shows "parseItems s =
    (let t = normalizeBreaks (trim s) in
     if LF \<notin> set t \<and> (BACKSLASH \<in> set t \<or> COMMA \<in> set t) then
       map stripPrefix (filter (\<lambda>s. s \<noteq> []) (map trim (splitOn isSeparator t)))
     else map stripPrefix (filter (\<lambda>s. s \<noteq> []) (map trim (splitOn (\<lambda>c. c = LF) t))))"
proof -
  from assms have "trim s \<noteq> []" by auto
  moreover from this have "s \<noteq> []" by auto
  ultimately show ?thesis by (simp add: parseItems_def Let_def)
qed

lemma replacePair_fixed: "r \<notin> set (replacePair a b r t) \<Longrightarrow> replacePair a b r t = t"
  by (induction a b r t rule: replacePair.induct) (auto split: if_splits)

lemma replaceChar_fixed: "r \<notin> set (replaceChar a r t) \<Longrightarrow> replaceChar a r t = t \<and> a \<notin> set t"
proof -
  assume r: "r \<notin> set (replaceChar a r t)"
  have a: "a \<notin> set t"
  proof
    assume "a \<in> set t"
    then have "(if a = a then r else a) \<in> set (replaceChar a r t)"
      unfolding replaceChar_def set_map by (rule imageI)
    with r show False by simp
  qed
  then have "replaceChar a r t = t" unfolding replaceChar_def by (intro map_idI) auto
  with a show ?thesis by simp
qed

lemma replaceChar_absent: "a \<notin> set t \<Longrightarrow> replaceChar a r t = t"
  unfolding replaceChar_def by (intro map_idI) auto

lemma replacePair_no_pair:
  "(\<nexists>u v. t = u @ a # b # v) \<Longrightarrow> replacePair a b r t = t"
proof (induction a b r t rule: replacePair.induct)
  case (1 a b r x y xs)
  note prems = "1.prems" and IH = "1.IH"
  from prems have nm: "\<not> (x = a \<and> y = b)" by fastforce
  have "\<nexists>u v. y # xs = u @ a # b # v"
  proof
    assume "\<exists>u v. y # xs = u @ a # b # v"
    then obtain u v where "y # xs = u @ a # b # v" by blast
    then have "x # y # xs = (x # u) @ a # b # v" by simp
    with prems show False by blast
  qed
  with IH(2) nm have "replacePair a b r (y # xs) = y # xs" by blast
  with nm show ?case by auto
qed simp_all

lemma pair_in_sublist:
  assumes "\<nexists>u v. s = u @ a # b # v" and "s = p @ t @ q"
  shows "\<nexists>u v. t = u @ a # b # (v :: jsstring)"
proof
  assume "\<exists>u v. t = u @ a # b # v"
  then obtain u v where "t = u @ a # b # v" by blast
  with assms(2) have "s = (p @ u) @ a # b # (v @ q)" by simp
  with assms(1) show False by blast
qed

lemma normalizeBreaks_plain:
  assumes lf: "LF \<notin> set (normalizeBreaks s)" and sub: "sublist t s"
  shows "normalizeBreaks t = t" and "LF \<notin> set t"
proof -
  define s1 where "s1 = replacePair BACKSLASH LETTER_r LF s"
  define s2 where "s2 = replacePair BACKSLASH LETTER_n LF s1"
  define s3 where "s3 = replacePair CR LF LF s2"
  define s4 where "s4 = replaceChar CR LF s3"
  define s5 where "s5 = replaceChar LS LF s4"
  have n: "normalizeBreaks s = replaceChar PS LF s5"
    by (simp add: normalizeBreaks_def s1_def s2_def s3_def s4_def s5_def)
  from lf have 6: "replaceChar PS LF s5 = s5 \<and> PS \<notin> set s5"
    unfolding n by (rule replaceChar_fixed)
  with lf n have l5: "LF \<notin> set s5" by simp
  then have 5: "s5 = s4 \<and> LS \<notin> set s4" unfolding s5_def by (rule replaceChar_fixed)
  with l5 have l4: "LF \<notin> set s4" by simp
  then have 4: "s4 = s3 \<and> CR \<notin> set s3" unfolding s4_def by (rule replaceChar_fixed)
  with l4 have l3: "LF \<notin> set s3" by simp
  then have 3: "s3 = s2" unfolding s3_def by (rule replacePair_fixed)
  with l3 have l2: "LF \<notin> set s2" by simp
  then have 2: "s2 = s1" unfolding s2_def by (rule replacePair_fixed)
  with l2 have l1: "LF \<notin> set s1" by simp
  then have 1: "s1 = s" unfolding s1_def by (rule replacePair_fixed)
  from 1 2 3 4 5 6 l1 have chars: "LF \<notin> set s" "CR \<notin> set s" "LS \<notin> set s" "PS \<notin> set s"
    by simp_all
  have pr: "\<nexists>u v. s = u @ BACKSLASH # LETTER_r # v"
  proof
    assume "\<exists>u v. s = u @ BACKSLASH # LETTER_r # v"
    then obtain u v where "s = u @ BACKSLASH # LETTER_r # v" by blast
    then have "LF \<in> set s1" unfolding s1_def by (simp add: replacePair_match)
    with l1 show False by contradiction
  qed
  have pn: "\<nexists>u v. s = u @ BACKSLASH # LETTER_n # v"
  proof
    assume "\<exists>u v. s = u @ BACKSLASH # LETTER_n # v"
    then obtain u v where "s = u @ BACKSLASH # LETTER_n # v" by blast
    then have "LF \<in> set s2" unfolding s2_def 1 by (simp add: replacePair_match)
    with l2 show False by contradiction
  qed
  from sub obtain p q where s: "s = p @ t @ q" by (auto simp: sublist_def)
  with chars show t: "LF \<notin> set t" by simp
  from s chars have tc: "CR \<notin> set t" "LS \<notin> set t" "PS \<notin> set t" by simp_all
  have t1: "replacePair BACKSLASH LETTER_r LF t = t"
    using pair_in_sublist [OF pr s] by (rule replacePair_no_pair)
  have t2: "replacePair BACKSLASH LETTER_n LF t = t"
    using pair_in_sublist [OF pn s] by (rule replacePair_no_pair)
  have "\<nexists>u v. t = u @ CR # LF # v" using t by auto
  then have t3: "replacePair CR LF LF t = t" by (rule replacePair_no_pair)
  show "normalizeBreaks t = t"
    unfolding normalizeBreaks_def Let_def t1 t2 t3 using tc by (simp add: replaceChar_absent)
qed

lemma trim_keeps:
  assumes "c \<in> set s" and "\<not> isWhiteSpace c"
  shows "c \<in> set (trim s)"
proof -
  let ?m = "dropWhile isWhiteSpace s"
  have "set s = set (takeWhile isWhiteSpace s) \<union> set ?m"
    by (metis set_append takeWhile_dropWhile_id)
  moreover have "c \<notin> set (takeWhile isWhiteSpace s)" using assms(2) by (auto dest: set_takeWhileD)
  ultimately have m: "c \<in> set (rev ?m)" using assms(1) by simp
  have "set (rev ?m) = set (takeWhile isWhiteSpace (rev ?m)) \<union> set (dropWhile isWhiteSpace (rev ?m))"
    by (metis set_append takeWhile_dropWhile_id)
  moreover have "c \<notin> set (takeWhile isWhiteSpace (rev ?m))"
    using assms(2) by (auto dest: set_takeWhileD)
  ultimately have "c \<in> set (dropWhile isWhiteSpace (rev ?m))" using m by blast
  then show ?thesis by (simp add: trim_def)
qed

lemma split_on_separators:
  assumes "LF \<notin> set (normalizeBreaks (trim s))"
    and "BACKSLASH \<in> set (normalizeBreaks (trim s)) \<or> COMMA \<in> set (normalizeBreaks (trim s))"
  shows "\<exists>x ps. normalizeBreaks (trim s) = joinSegments x ps \<and>
         list_all isSeparator (map fst ps) \<and>
         list_all (\<lambda>y. \<not> list_ex isSeparator y) (x # map snd ps) \<and>
         parseItems s = map stripPrefix (filter (\<lambda>y. y \<noteq> []) (map trim (x # map snd ps)))"
proof -
  let ?t = "normalizeBreaks (trim s)"
  from assms have "?t \<noteq> []" by auto
  from parseItems_nonblank [OF this] assms
  have p: "parseItems s = map stripPrefix (filter (\<lambda>y. y \<noteq> []) (map trim (splitOn isSeparator ?t)))"
    by (simp add: Let_def)
  from segments_of_split [of ?t isSeparator] p show ?thesis by metis
qed

lemma split_on_line_breaks:
  assumes "LF \<in> set (normalizeBreaks (trim s))"
  shows "\<exists>x ps. normalizeBreaks (trim s) = joinSegments x ps \<and>
         list_all (\<lambda>c. c = LF) (map fst ps) \<and>
         list_all (\<lambda>y. \<not> list_ex (\<lambda>c. c = LF) y) (x # map snd ps) \<and>
         parseItems s = map stripPrefix (filter (\<lambda>y. y \<noteq> []) (map trim (x # map snd ps)))"
proof -
  let ?t = "normalizeBreaks (trim s)"
  from assms have "?t \<noteq> []" by auto
  from parseItems_nonblank [OF this] assms
  have p: "parseItems s = map stripPrefix (filter (\<lambda>y. y \<noteq> []) (map trim (splitOn (\<lambda>c. c = LF) ?t)))"
    by (simp add: Let_def)
  from segments_of_split [of ?t "\<lambda>c. c = LF"] p show ?thesis by metis
qed

lemma split_on_separators_raw:
  assumes "LF \<notin> set (normalizeBreaks s)"
    and "BACKSLASH \<in> set (normalizeBreaks s) \<or> COMMA \<in> set (normalizeBreaks s)"
  shows "\<exists>x ps. trim s = joinSegments x ps \<and>
         list_all isSeparator (map fst ps) \<and>
         list_all (\<lambda>y. \<not> list_ex isSeparator y) (x # map snd ps) \<and>
         parseItems s = map stripPrefix (filter (\<lambda>y. y \<noteq> []) (map trim (x # map snd ps)))"
proof -
  have s: "normalizeBreaks s = s" using assms(1) by (rule normalizeBreaks_plain) simp
  have t: "normalizeBreaks (trim s) = trim s" and l: "LF \<notin> set (trim s)"
    using assms(1) sublist_trim by (rule normalizeBreaks_plain)+
  have "\<not> isWhiteSpace BACKSLASH" and "\<not> isWhiteSpace COMMA" by (simp_all add: isWhiteSpace_def)
  with assms(2) have "BACKSLASH \<in> set (trim s) \<or> COMMA \<in> set (trim s)"
    unfolding s using trim_keeps by blast
  with split_on_separators [of s] l show ?thesis unfolding t by blast
qed

text \<open>
  Claim C1, with the line-break condition read on the trimmed selection, where the code
  reads it. When the normal form of the input has no line-break marker but has a
  backslash or a comma, the trimmed input is cut at every backslash and every comma: it
  is its segments joined by separators of that class, no segment holds a backslash or a
  comma, and the items are the trimmed, non-empty segments with their prefixes stripped.
  The same holds of the normal form of the trimmed input whenever that has no line-break
  marker but a backslash or a comma. When the normal form of the trimmed input has a
  line-break marker, the line-break marker is the only separator, so commas and
  backslashes stay inside the segments. The text \<open>a, b\<close>, linefeed, \<open>c, d\<close> gives the
  two items \<open>a, b\<close> and \<open>c, d\<close>, and \<open>apple, banana, cherry\<close> gives \<open>apple\<close>,
  \<open>banana\<close>, \<open>cherry\<close>.
\<close>

theorem separator_decision:
  "(LF \<notin> set (normalizeBreaks s) \<and>
    (BACKSLASH \<in> set (normalizeBreaks s) \<or> COMMA \<in> set (normalizeBreaks s)) \<longrightarrow>
      (\<exists>x ps. trim s = joinSegments x ps \<and>
         list_all isSeparator (map fst ps) \<and>
         list_all (\<lambda>y. \<not> list_ex isSeparator y) (x # map snd ps) \<and>
         parseItems s = map stripPrefix (filter (\<lambda>y. y \<noteq> []) (map trim (x # map snd ps))))) \<and>
   (LF \<notin> set (normalizeBreaks (trim s)) \<and>
    (BACKSLASH \<in> set (normalizeBreaks (trim s)) \<or> COMMA \<in> set (normalizeBreaks (trim s))) \<longrightarrow>
      (\<exists>x ps. normalizeBreaks (trim s) = joinSegments x ps \<and>
         list_all isSeparator (map fst ps) \<and>
         list_all (\<lambda>y. \<not> list_ex isSeparator y) (x # map snd ps) \<and>
         parseItems s = map stripPrefix (filter (\<lambda>y. y \<noteq> []) (map trim (x # map snd ps))))) \<and>
   (LF \<in> set (normalizeBreaks (trim s)) \<longrightarrow>
      (\<exists>x ps. normalizeBreaks (trim s) = joinSegments x ps \<and>
         list_all (\<lambda>c. c = LF) (map fst ps) \<and>
         list_all (\<lambda>y. \<not> list_ex (\<lambda>c. c = LF) y) (x # map snd ps) \<and>
         parseItems s = map stripPrefix (filter (\<lambda>y. y \<noteq> []) (map trim (x # map snd ps))))) \<and>
   parseItems (ascii ''a, b\<newline>c, d'') = [ascii ''a, b'', ascii ''c, d''] \<and>
   parseItems (ascii ''apple, banana, cherry'') = [ascii ''apple'', ascii ''banana'', ascii ''cherry'']"
proof -
  have 1: "parseItems (ascii ''a, b\<newline>c, d'') = [ascii ''a, b'', ascii ''c, d'']"
    by code_simp
  have 2: "parseItems (ascii ''apple, banana, cherry'') = [ascii ''apple'', ascii ''banana'', ascii ''cherry'']"
    by code_simp
  show ?thesis
    using split_on_separators_raw [of s] split_on_separators [of s] split_on_line_breaks [of s] 1 2
    by blast
qed

theorem separator_decision_witness:
  "LF \<notin> set (normalizeBreaks (ascii ''x,y'')) \<and>
   COMMA \<in> set (normalizeBreaks (ascii ''x,y'')) \<and>
   LF \<notin> set (normalizeBreaks (trim (ascii ''x,y\<newline>''))) \<and>
   COMMA \<in> set (normalizeBreaks (trim (ascii ''x,y\<newline>''))) \<and>
   LF \<in> set (normalizeBreaks (trim (ascii ''x,y'' @ [BACKSLASH, LETTER_r] @ ascii ''z''))) \<and>
   parseItems (ascii ''x,y'') = [ascii ''x'', ascii ''y''] \<and>
   parseItems (ascii ''x,y\<newline>'') = [ascii ''x'', ascii ''y''] \<and>
   parseItems (ascii ''x,y'' @ [BACKSLASH, LETTER_r] @ ascii ''z'') = [ascii ''x,y'', ascii ''z''] \<and>
   (\<exists>x ps. trim (ascii ''x,y'') = joinSegments x ps \<and>
      list_all isSeparator (map fst ps) \<and>
      parseItems (ascii ''x,y'') = map stripPrefix (filter (\<lambda>y. y \<noteq> []) (map trim (x # map snd ps)))) \<and>
   (\<exists>x ps. normalizeBreaks (trim (ascii ''x,y\<newline>'')) = joinSegments x ps \<and>
      list_all isSeparator (map fst ps) \<and>
      parseItems (ascii ''x,y\<newline>'') =
        map stripPrefix (filter (\<lambda>y. y \<noteq> []) (map trim (x # map snd ps)))) \<and>
   (\<exists>x ps. normalizeBreaks (trim (ascii ''x,y'' @ [BACKSLASH, LETTER_r] @ ascii ''z'')) = joinSegments x ps \<and>
      list_all (\<lambda>c. c = LF) (map fst ps) \<and>
      parseItems (ascii ''x,y'' @ [BACKSLASH, LETTER_r] @ ascii ''z'') =
        map stripPrefix (filter (\<lambda>y. y \<noteq> []) (map trim (x # map snd ps))))"
proof -
  have 1: "LF \<notin> set (normalizeBreaks (ascii ''x,y''))" by code_simp
  have 2: "COMMA \<in> set (normalizeBreaks (ascii ''x,y''))" by code_simp
  have 3: "LF \<notin> set (normalizeBreaks (trim (ascii ''x,y\<newline>'')))" by code_simp
  have 4: "COMMA \<in> set (normalizeBreaks (trim (ascii ''x,y\<newline>'')))" by code_simp
  have 5: "LF \<in> set (normalizeBreaks (trim (ascii ''x,y'' @ [BACKSLASH, LETTER_r] @ ascii ''z'')))"
    by code_simp
  from separator_decision [of "ascii ''x,y''"] 1 2
  have 6: "\<exists>x ps. trim (ascii ''x,y'') = joinSegments x ps \<and>
      list_all isSeparator (map fst ps) \<and>
      parseItems (ascii ''x,y'') = map stripPrefix (filter (\<lambda>y. y \<noteq> []) (map trim (x # map snd ps)))"
    by blast
  from separator_decision [of "ascii ''x,y\<newline>''"] 3 4
  have 7: "\<exists>x ps. normalizeBreaks (trim (ascii ''x,y\<newline>'')) = joinSegments x ps \<and>
      list_all isSeparator (map fst ps) \<and>
      parseItems (ascii ''x,y\<newline>'') =
        map stripPrefix (filter (\<lambda>y. y \<noteq> []) (map trim (x # map snd ps)))"
    by blast
  from separator_decision [of "ascii ''x,y'' @ [BACKSLASH, LETTER_r] @ ascii ''z''"] 5
  have 8: "\<exists>x ps. normalizeBreaks (trim (ascii ''x,y'' @ [BACKSLASH, LETTER_r] @ ascii ''z'')) = joinSegments x ps \<and>
      list_all (\<lambda>c. c = LF) (map fst ps) \<and>
      parseItems (ascii ''x,y'' @ [BACKSLASH, LETTER_r] @ ascii ''z'') =
        map stripPrefix (filter (\<lambda>y. y \<noteq> []) (map trim (x # map snd ps)))"
    by blast
  have 9: "parseItems (ascii ''x,y'') = [ascii ''x'', ascii ''y'']" by code_simp
  have 10: "parseItems (ascii ''x,y\<newline>'') = [ascii ''x'', ascii ''y'']" by code_simp
  have 11: "parseItems (ascii ''x,y'' @ [BACKSLASH, LETTER_r] @ ascii ''z'') = [ascii ''x,y'', ascii ''z'']"
    by code_simp
  from 1 2 3 4 5 6 7 8 9 10 11 show ?thesis by blast
qed

text \<open>
  The line-break condition cannot be read on the normal form of the untrimmed input: a
  line break at the very end of the selection is in that normal form, but trimming
  removes it before the separator is decided, and the text is cut at its commas.
\<close>

theorem line_break_at_the_end_counterexample:
  "LF \<in> set (normalizeBreaks (ascii ''a, b\<newline>'')) \<and>
   parseItems (ascii ''a, b\<newline>'') = [ascii ''a'', ascii ''b''] \<and>
   LF \<in> set (normalizeBreaks (ascii ''apple, banana, cherry'' @ [CR])) \<and>
   parseItems (ascii ''apple, banana, cherry'' @ [CR]) =
     [ascii ''apple'', ascii ''banana'', ascii ''cherry'']"
  by code_simp

section \<open>Order of the items\<close>

lemma occursInOrder_prefix: "occursInOrder xs v \<Longrightarrow> occursInOrder xs (a @ v)"
proof (cases xs)
  case Nil
  then show ?thesis by simp
next
  case (Cons x ys)
  assume "occursInOrder xs v"
  with Cons obtain u w where "v = u @ x @ w" and "occursInOrder ys w" by auto
  then have "a @ v = (a @ u) @ x @ w \<and> occursInOrder ys w" by simp
  then show ?thesis unfolding Cons occursInOrder.simps by blast
qed

lemma occursInOrder_suffix: "occursInOrder xs v \<Longrightarrow> occursInOrder xs (v @ b)"
proof (induction xs arbitrary: v)
  case Nil
  then show ?case by simp
next
  case (Cons x xs)
  then obtain u w where v: "v = u @ x @ w" and w: "occursInOrder xs w" by auto
  from Cons.IH [OF w] have "occursInOrder xs (w @ b)" .
  with v have "v @ b = u @ x @ (w @ b) \<and> occursInOrder xs (w @ b)" by simp
  then show ?case unfolding occursInOrder.simps by blast
qed

lemma occursInOrder_sublist:
  assumes "sublist t s" and "occursInOrder xs t"
  shows "occursInOrder xs s"
proof -
  from assms(1) obtain a b where "s = a @ t @ b" by (auto simp: sublist_def)
  with occursInOrder_prefix [OF occursInOrder_suffix [OF assms(2)], of a b] show ?thesis by simp
qed

lemma occursInOrder_joinSegments:
  assumes h: "\<And>y. sublist (h y) y"
  shows "occursInOrder (map h (filter F (x # map snd ps))) (joinSegments x ps)"
proof (induction x ps rule: joinSegments.induct)
  case (1 x)
  from h [of x] have "\<exists>u v. x = u @ h x @ v" by (simp add: sublist_def)
  then show ?case by simp
next
  case (2 x c y ps)
  let ?rest = "map h (filter F (y # map snd ps))"
  have r: "occursInOrder ?rest (z @ c # joinSegments y ps)" for z
    using occursInOrder_prefix [OF 2, of "z @ [c]"] by simp
  show ?case
  proof (cases "F x")
    case True
    from h [of x] obtain a b where "x = a @ h x @ b" unfolding sublist_def by blast
    then have x: "a @ h x @ b = x" by (rule sym)
    have "joinSegments x ((c, y) # ps) = (a @ h x @ b) @ c # joinSegments y ps"
      unfolding x by simp
    then have "joinSegments x ((c, y) # ps) = a @ h x @ (b @ c # joinSegments y ps)"
      by simp
    with r [of b] have "occursInOrder (h x # ?rest) (joinSegments x ((c, y) # ps))"
      unfolding occursInOrder.simps by blast
    with True show ?thesis by simp
  next
    case False
    with r [of x] show ?thesis by simp
  qed
qed

lemma occursInOrder_splitOn:
  assumes "\<And>y. sublist (h y) y"
  shows "occursInOrder (map h (filter F (splitOn P t))) t"
proof -
  obtain x ps where "splitOn P t = x # map snd ps" "t = joinSegments x ps"
    using splitOn_structure [of P t] by blast
  with occursInOrder_joinSegments [of h F x ps, OF assms] show ?thesis by simp
qed

lemma replacePair_run:
  "replacePair a b LF t = x @ v \<Longrightarrow> LF \<notin> set x \<Longrightarrow> \<exists>v'. t = x @ v' \<and> replacePair a b LF v' = v"
proof (induction x arbitrary: t v)
  case Nil
  then show ?case by simp
next
  case (Cons c x)
  show ?case
  proof (cases t)
    case Nil
    with Cons.prems show ?thesis by simp
  next
    case t1: (Cons y t')
    show ?thesis
    proof (cases t')
      case Nil
      with t1 Cons.prems have "t = (c # x) @ [] \<and> replacePair a b LF [] = v" by auto
      then show ?thesis by blast
    next
      case t2: (Cons z zs)
      with t1 have t: "t = y # z # zs" by simp
      with Cons.prems have nm: "\<not> (y = a \<and> z = b)" by auto
      with t Cons.prems have c: "c = y" and "replacePair a b LF (z # zs) = x @ v" by auto
      from Cons.IH [OF this(2)] Cons.prems(2) obtain v' where "z # zs = x @ v'"
        and "replacePair a b LF v' = v" by auto
      with t c have "t = (c # x) @ v' \<and> replacePair a b LF v' = v" by simp
      then show ?thesis by blast
    qed
  qed
qed

lemma replacePair_cut:
  "replacePair a b r t = u @ w \<Longrightarrow> \<exists>u' w'. t = u' @ w' \<and> replacePair a b r w' = w"
proof (induction u arbitrary: t)
  case Nil
  then have "t = [] @ t \<and> replacePair a b r t = w" by simp
  then show ?case by blast
next
  case (Cons c u0)
  show ?case
  proof (cases t)
    case Nil
    with Cons.prems show ?thesis by simp
  next
    case t1: (Cons y t')
    show ?thesis
    proof (cases t')
      case Nil
      with t1 Cons.prems have "t = [y] @ [] \<and> replacePair a b r [] = w" by auto
      then show ?thesis by blast
    next
      case t2: (Cons z zs)
      with t1 have t: "t = y # z # zs" by simp
      show ?thesis
      proof (cases "y = a \<and> z = b")
        case True
        with Cons.prems t have "replacePair a b r zs = u0 @ w" by auto
        from Cons.IH [OF this] obtain u' w' where "zs = u' @ w'" "replacePair a b r w' = w"
          by blast
        with t have "t = (y # z # u') @ w' \<and> replacePair a b r w' = w" by simp
        then show ?thesis by blast
      next
        case False
        with Cons.prems t have "replacePair a b r (z # zs) = u0 @ w" by auto
        from Cons.IH [OF this] obtain u' w' where "z # zs = u' @ w'"
          "replacePair a b r w' = w" by blast
        with t have "t = (y # u') @ w' \<and> replacePair a b r w' = w" by simp
        then show ?thesis by blast
      qed
    qed
  qed
qed

lemma occursInOrder_replacePair:
  "\<forall>x\<in>set xs. LF \<notin> set x \<Longrightarrow> occursInOrder xs (replacePair a b LF t) \<Longrightarrow> occursInOrder xs t"
proof (induction xs arbitrary: t)
  case Nil
  then show ?case by simp
next
  case (Cons x xs)
  from Cons.prems(2) obtain u v where e: "replacePair a b LF t = u @ x @ v"
    and o: "occursInOrder xs v" by auto
  from replacePair_cut [OF e] obtain u' w' where t: "t = u' @ w'"
    and w: "replacePair a b LF w' = x @ v" by blast
  from replacePair_run [OF w] Cons.prems(1) obtain v' where w': "w' = x @ v'"
    and v: "replacePair a b LF v' = v" by auto
  from Cons.IH [of v'] Cons.prems(1) o v have "occursInOrder xs v'" by simp
  with t w' have "t = u' @ x @ v' \<and> occursInOrder xs v'" by simp
  then show ?case unfolding occursInOrder.simps by blast
qed

lemma replaceChar_run:
  assumes "replaceChar a LF t = u @ x @ v" and "LF \<notin> set x"
  shows "\<exists>u' v'. t = u' @ x @ v' \<and> replaceChar a LF v' = v"
proof -
  let ?f = "\<lambda>c. if c = a then LF else c"
  from assms(1) have "map ?f t = u @ (x @ v)" by (simp add: replaceChar_def)
  then have "\<exists>us vs. t = us @ vs \<and> u = map ?f us \<and> x @ v = map ?f vs"
    by (simp only: map_eq_append_conv)
  then obtain u' m where t: "t = u' @ m" and m: "x @ v = map ?f m" by blast
  from m have "\<exists>us vs. m = us @ vs \<and> x = map ?f us \<and> v = map ?f vs"
    by (simp only: append_eq_map_conv)
  then obtain x' v' where m': "m = x' @ v'" and x: "map ?f x' = x" and v: "map ?f v' = v"
    by blast
  have "a \<notin> set x'"
  proof
    assume "a \<in> set x'"
    then have "?f a \<in> set (map ?f x')" by (rule imageI [of a "set x'" ?f, folded set_map])
    with x assms(2) show False by simp
  qed
  then have "map ?f x' = x'" by (intro map_idI) auto
  with x have "x' = x" by simp
  with t m' v have "t = u' @ x @ v' \<and> replaceChar a LF v' = v" by (simp add: replaceChar_def)
  then show ?thesis by blast
qed

lemma occursInOrder_replaceChar:
  "\<forall>x\<in>set xs. LF \<notin> set x \<Longrightarrow> occursInOrder xs (replaceChar a LF t) \<Longrightarrow> occursInOrder xs t"
proof (induction xs arbitrary: t)
  case Nil
  then show ?case by simp
next
  case (Cons x xs)
  from Cons.prems(2) obtain u v where e: "replaceChar a LF t = u @ x @ v"
    and o: "occursInOrder xs v" by auto
  from replaceChar_run [OF e] Cons.prems(1) obtain u' v' where t: "t = u' @ x @ v'"
    and v: "replaceChar a LF v' = v" by auto
  from Cons.IH [of v'] Cons.prems(1) o v have "occursInOrder xs v'" by simp
  with t show ?case unfolding occursInOrder.simps by blast
qed

lemma occursInOrder_normalizeBreaks:
  assumes "\<forall>x\<in>set xs. LF \<notin> set x" and "occursInOrder xs (normalizeBreaks t)"
  shows "occursInOrder xs t"
proof -
  note rp = occursInOrder_replacePair [OF assms(1)] and rc = occursInOrder_replaceChar [OF assms(1)]
  define t1 where "t1 = replacePair BACKSLASH LETTER_r LF t"
  define t2 where "t2 = replacePair BACKSLASH LETTER_n LF t1"
  define t3 where "t3 = replacePair CR LF LF t2"
  define t4 where "t4 = replaceChar CR LF t3"
  define t5 where "t5 = replaceChar LS LF t4"
  have "normalizeBreaks t = replaceChar PS LF t5"
    by (simp add: normalizeBreaks_def t1_def t2_def t3_def t4_def t5_def)
  with assms(2) have "occursInOrder xs (replaceChar PS LF t5)" by simp
  then have "occursInOrder xs t5" by (rule rc)
  then have "occursInOrder xs t4" unfolding t5_def by (rule rc)
  then have "occursInOrder xs t3" unfolding t4_def by (rule rc)
  then have "occursInOrder xs t2" unfolding t3_def by (rule rp)
  then have "occursInOrder xs t1" unfolding t2_def by (rule rp)
  then show "occursInOrder xs t" unfolding t1_def by (rule rp)
qed

lemma parseItems_in_order: "occursInOrder (parseItems s) s"
proof (cases "normalizeBreaks (trim s) = []")
  case True
  have "parseItems s = []"
  proof (cases "s = [] \<or> trim s = []")
    case True
    then show ?thesis by (auto simp: parseItems_def)
  next
    case False
    with True show ?thesis by (simp add: parseItems_def Let_def)
  qed
  then show ?thesis by simp
next
  case False
  let ?t = "normalizeBreaks (trim s)"
  let ?h = "\<lambda>y. stripPrefix (trim y)" and ?F = "\<lambda>y. trim y \<noteq> []"
  have h: "\<And>y. sublist (?h y) y" by (rule sublist_item)
  have m: "map stripPrefix (filter (\<lambda>s. s \<noteq> []) (map trim segs)) = map ?h (filter ?F segs)"
    for segs by (simp add: filter_map comp_def)
  have "occursInOrder (parseItems s) ?t"
    unfolding parseItems_nonblank [OF False] Let_def m
    using occursInOrder_splitOn [of ?h ?F, OF h] by simp
  moreover have "\<forall>x\<in>set (parseItems s). LF \<notin> set x" using parseItems_no_breaks(1) by blast
  ultimately have "occursInOrder (parseItems s) (trim s)" by (rule occursInOrder_normalizeBreaks [rotated])
  with sublist_trim show ?thesis by (rule occursInOrder_sublist)
qed

lemma occursInOrder_segments: "occursInOrder (x # map snd ps) (joinSegments x ps)"
  using occursInOrder_joinSegments [of "\<lambda>y. y" "\<lambda>y. True" x ps] by simp

lemma parseItems_segments:
  "\<exists>P x ps.
     P = (if LF \<notin> set (normalizeBreaks (trim s)) \<and>
             (BACKSLASH \<in> set (normalizeBreaks (trim s)) \<or> COMMA \<in> set (normalizeBreaks (trim s)))
          then isSeparator else (\<lambda>c. c = LF)) \<and>
     normalizeBreaks (trim s) = joinSegments x ps \<and>
     list_all P (map fst ps) \<and>
     list_all (\<lambda>y. \<not> list_ex P y) (x # map snd ps) \<and>
     occursInOrder (x # map snd ps) s \<and>
     parseItems s =
       map (\<lambda>y. stripPrefix (trim y)) (filter (\<lambda>y. trim y \<noteq> []) (x # map snd ps))"
proof -
  let ?t = "normalizeBreaks (trim s)"
  define P where "P = (if LF \<notin> set ?t \<and> (BACKSLASH \<in> set ?t \<or> COMMA \<in> set ?t)
          then isSeparator else (\<lambda>c. c = LF))"
  obtain x ps where j: "?t = joinSegments x ps" and sp: "list_all P (map fst ps)"
    and sg: "list_all (\<lambda>y. \<not> list_ex P y) (x # map snd ps)"
    and sl: "splitOn P ?t = x # map snd ps"
    using segments_of_split [of ?t P] by blast
  have m: "map stripPrefix (filter (\<lambda>s. s \<noteq> []) (map trim segs)) =
           map (\<lambda>y. stripPrefix (trim y)) (filter (\<lambda>y. trim y \<noteq> []) segs)" for segs
    by (simp add: filter_map comp_def)
  have items: "parseItems s =
       map (\<lambda>y. stripPrefix (trim y)) (filter (\<lambda>y. trim y \<noteq> []) (x # map snd ps))"
  proof (cases "?t = []")
    case True
    have "parseItems s = []"
    proof (cases "s = [] \<or> trim s = []")
      case True
      then show ?thesis by (auto simp: parseItems_def)
    next
      case False
      with \<open>?t = []\<close> show ?thesis by (simp add: parseItems_def Let_def)
    qed
    moreover from True have "splitOn P ?t = [[]]" by simp
    with sl have "x # map snd ps = [[]]" by simp
    ultimately show ?thesis by simp
  next
    case False
    show ?thesis
      unfolding parseItems_nonblank [OF False] Let_def m sl [symmetric] P_def by simp
  qed
  have lf: "\<forall>y\<in>set (x # map snd ps). LF \<notin> set y"
  proof (cases "LF \<notin> set ?t \<and> (BACKSLASH \<in> set ?t \<or> COMMA \<in> set ?t)")
    case True
    have "\<forall>y\<in>set (x # map snd ps). sublist y ?t"
      unfolding j using sublist_joinSegments by blast
    with True show ?thesis using set_mono_sublist by blast
  next
    case False
    then have "P = (\<lambda>c. c = LF)" unfolding P_def by (rule if_not_P)
    with sg show ?thesis by (simp add: list_all_iff list_ex_iff)
  qed
  have "occursInOrder (x # map snd ps) ?t" unfolding j by (rule occursInOrder_segments)
  with lf have "occursInOrder (x # map snd ps) (trim s)" by (rule occursInOrder_normalizeBreaks)
  with sublist_trim have o: "occursInOrder (x # map snd ps) s" by (rule occursInOrder_sublist)
  from j sp sg o items have "P = (if LF \<notin> set ?t \<and> (BACKSLASH \<in> set ?t \<or> COMMA \<in> set ?t)
          then isSeparator else (\<lambda>c. c = LF)) \<and>
     ?t = joinSegments x ps \<and> list_all P (map fst ps) \<and>
     list_all (\<lambda>y. \<not> list_ex P y) (x # map snd ps) \<and>
     occursInOrder (x # map snd ps) s \<and>
     parseItems s =
       map (\<lambda>y. stripPrefix (trim y)) (filter (\<lambda>y. trim y \<noteq> []) (x # map snd ps))"
    by (simp add: P_def)
  then show ?thesis by blast
qed

text \<open>
  Claim C6. The items come in the order of their segments. The normal form of the
  trimmed selection is its segments joined by the separators of the path taken (the
  separators of that class, and no segment holding one, so the segments are fixed and
  listed in the order of the text); these segments occur in the selection text itself
  in that order; and the list of items is this list of segments with the blank ones
  left out and each other one trimmed and stripped of its prefix, position by position.
  The items therefore also occur in the selection text in the order of the list. Three
  lines \<open>apple\<close>, \<open>banana\<close>, \<open>cherry\<close> give these three items in this order, and so
  does the one line \<open>apple\banana\cherry\<close> with literal backslashes; the two lines
  \<open>1. a\<close> and \<open>1\<close> give \<open>a\<close> and then \<open>1\<close>.
\<close>

theorem parseItems_order:
  "(\<exists>P x ps.
     P = (if LF \<notin> set (normalizeBreaks (trim s)) \<and>
             (BACKSLASH \<in> set (normalizeBreaks (trim s)) \<or> COMMA \<in> set (normalizeBreaks (trim s)))
          then isSeparator else (\<lambda>c. c = LF)) \<and>
     normalizeBreaks (trim s) = joinSegments x ps \<and>
     list_all P (map fst ps) \<and>
     list_all (\<lambda>y. \<not> list_ex P y) (x # map snd ps) \<and>
     occursInOrder (x # map snd ps) s \<and>
     parseItems s =
       map (\<lambda>y. stripPrefix (trim y)) (filter (\<lambda>y. trim y \<noteq> []) (x # map snd ps))) \<and>
   occursInOrder (parseItems s) s \<and>
   parseItems (ascii ''apple\<newline>banana\<newline>cherry'') =
     [ascii ''apple'', ascii ''banana'', ascii ''cherry''] \<and>
   parseItems (ascii ''apple'' @ [BACKSLASH] @ ascii ''banana'' @ [BACKSLASH] @ ascii ''cherry'') =
     [ascii ''apple'', ascii ''banana'', ascii ''cherry''] \<and>
   parseItems (ascii ''1. a\<newline>1'') = [ascii ''a'', ascii ''1'']"
proof (intro conjI)
  show "\<exists>P x ps.
     P = (if LF \<notin> set (normalizeBreaks (trim s)) \<and>
             (BACKSLASH \<in> set (normalizeBreaks (trim s)) \<or> COMMA \<in> set (normalizeBreaks (trim s)))
          then isSeparator else (\<lambda>c. c = LF)) \<and>
     normalizeBreaks (trim s) = joinSegments x ps \<and>
     list_all P (map fst ps) \<and>
     list_all (\<lambda>y. \<not> list_ex P y) (x # map snd ps) \<and>
     occursInOrder (x # map snd ps) s \<and>
     parseItems s =
       map (\<lambda>y. stripPrefix (trim y)) (filter (\<lambda>y. trim y \<noteq> []) (x # map snd ps))"
    by (rule parseItems_segments)
  show "occursInOrder (parseItems s) s" by (rule parseItems_in_order)
  show "parseItems (ascii ''apple\<newline>banana\<newline>cherry'') =
     [ascii ''apple'', ascii ''banana'', ascii ''cherry'']" by code_simp
  show "parseItems (ascii ''apple'' @ [BACKSLASH] @ ascii ''banana'' @ [BACKSLASH] @ ascii ''cherry'') =
     [ascii ''apple'', ascii ''banana'', ascii ''cherry'']" by code_simp
  show "parseItems (ascii ''1. a\<newline>1'') = [ascii ''a'', ascii ''1'']" by code_simp
qed

section \<open>A segment that is only a prefix\<close>

text \<open>
  Claim C2. Items are meant to be non-empty: the parser drops every segment that is
  empty after trimming. It does so before \<open>stripPrefix\<close> runs, so a segment that is
  nothing but a bullet or a numbering passes the filter and becomes an empty item. This
  is what the parser returns for the texts \<open>-\<close> and \<open>1.\<close>, and for the three lines
  \<open>a\<close>, \<open>-\<close>, \<open>b\<close>.
\<close>

theorem prefix_only_segment_gives_empty_item:
  "parseItems (ascii ''-'') = [[]] \<and>
   parseItems (ascii ''1.'') = [[]] \<and>
   parseItems (ascii ''a\<newline>-\<newline>b'') = [ascii ''a'', [], ascii ''b'']"
proof (intro conjI)
  show "parseItems (ascii ''-'') = [[]]" by code_simp
  show "parseItems (ascii ''1.'') = [[]]" by code_simp
  show "parseItems (ascii ''a\<newline>-\<newline>b'') = [ascii ''a'', [], ascii ''b'']" by code_simp
qed

section \<open>The flow on a selection without items\<close>

lemma statusEl_setBusy [simp]: "statusEl (setBusy b w) = statusEl w"
  by (simp add: setBusy_def)

lemma issued_setBusy [simp]: "issued (setBusy b w) = issued w"
  by (simp add: setBusy_def)

lemma issued_setStatus [simp]: "issued (setStatus msg kind w) = issued w"
  by (simp add: setStatus_def split: option.splits)

lemma statusEl_setStatus:
  "statusEl (setStatus msg kind w) = (if statusEl w = None then None else Some (msg, Some kind))"
  by (simp add: setStatus_def split: option.splits)

text \<open>
  Claim C8. When the parser finds no item, the flow issues no operation on the document
  and sets the error status \<open>selectTextFirst\<close>. The \<open>return\<close> after it leaves only the
  function passed to \<open>Word.run\<close>; the statement after \<open>Word.run\<close> then sets the
  success status, so the status that the flow leaves behind is \<open>Bullets created.\<close> with
  the class success, and not an error status.
\<close>

theorem empty_selection_ends_with_success_status:
  "parseItems text = [] \<and> statusEl w \<noteq> None \<longrightarrow>
     issued (bulletsFromSelection (Inr text) None w) = issued w \<and>
     statusEl (fst (batch (Inr text) None w)) = Some (selectTextFirst, Some Error) \<and>
     statusEl (bulletsFromSelection (Inr text) None w) = Some (''Bullets created.'', Some Success)"
  by (simp add: bulletsFromSelection_def batch_def statusEl_setStatus Let_def)

theorem empty_selection_ends_with_success_status_witness:
  "parseItems [0x20, LF] = [] \<and>
   bulletsFromSelection (Inr [0x20, LF]) None
     \<lparr>insertBtn = Some False, bulletsBtn = Some False, titleInput = Some False,
      statusEl = Some (''Ready.'', Some Success), issued = [], console = []\<rparr> =
     \<lparr>insertBtn = Some False, bulletsBtn = Some False, titleInput = Some False,
      statusEl = Some (''Bullets created.'', Some Success), issued = [], console = []\<rparr>"
proof -
  let ?w = "\<lparr>insertBtn = Some False, bulletsBtn = Some False, titleInput = Some False,
      statusEl = Some (''Ready.'', Some Success), issued = [], console = []\<rparr>"
  have p: "parseItems [0x20, LF] = []" by code_simp
  have s: "statusEl ?w \<noteq> None" by simp
  from empty_selection_ends_with_success_status [of "[0x20, LF]" ?w] p s
  have "issued (bulletsFromSelection (Inr [0x20, LF]) None ?w) = []"
    and "statusEl (bulletsFromSelection (Inr [0x20, LF]) None ?w) =
      Some (''Bullets created.'', Some Success)"
    by simp_all
  moreover have "insertBtn (bulletsFromSelection (Inr [0x20, LF]) None ?w) = Some False"
    and "bulletsBtn (bulletsFromSelection (Inr [0x20, LF]) None ?w) = Some False"
    and "titleInput (bulletsFromSelection (Inr [0x20, LF]) None ?w) = Some False"
    and "console (bulletsFromSelection (Inr [0x20, LF]) None ?w) = []"
    using p by (simp_all add: bulletsFromSelection_def batch_def setBusy_def setStatus_def Let_def)
  ultimately show ?thesis using p by (cases "bulletsFromSelection (Inr [0x20, LF]) None ?w") simp
qed

end
